theory Spec2Isabelle
  imports Main "HOL-Library.Word" "HOL-Library.AList"
begin

section \<open>The consistent-hashing ring of \<^verbatim>\<open>sample-implementation.js\<close>\<close>

text \<open>
  The class \<^verbatim>\<open>ConsistentHash\<close> keeps four fields: the number of virtual nodes per
  server, a JavaScript \<^verbatim>\<open>Map\<close> from ring position to server, a \<^verbatim>\<open>Set\<close> of servers
  and a sorted array of the positions. A \<^verbatim>\<open>Map\<close> and a \<^verbatim>\<open>Set\<close> iterate in insertion
  order, so both are lists here: the \<^verbatim>\<open>Map\<close> an association list whose \<^verbatim>\<open>set\<close> overwrites
  an existing key in place and appends a new one, the \<^verbatim>\<open>Set\<close> a list without repetition.

  Server identifiers and keys are strings. A position is the number read from the first
  eight hexadecimal digits of a digest, a 32-bit unsigned value. The digest itself is
  computed by the \<^verbatim>\<open>crypto\<close> module of the runtime, which is not part of this program:
  every operation takes the hash function \<open>H\<close> as its first argument.

  The messages written with \<^verbatim>\<open>console.log\<close> are not part of the ring and are left out.
\<close>

subsection \<open>Data\<close>

type_synonym position = "32 word"

type_synonym hash_function = "string \<Rightarrow> position"

datatype error = NoServersAvailable

record ConsistentHash =
  virtualNodes :: int
  ring :: "(position \<times> string) list"
  servers :: "string list"
  sortedPositions :: "position list"

definition constructor :: "int \<Rightarrow> ConsistentHash" where
  "constructor v = \<lparr>virtualNodes = v, ring = [], servers = [], sortedPositions = []\<rparr>"

subsection \<open>The containers of the runtime\<close>

text \<open>\<^verbatim>\<open>Map.prototype.set\<close>, \<^verbatim>\<open>delete\<close>, \<^verbatim>\<open>get\<close> and \<^verbatim>\<open>keys\<close>. A missing key reads as
  \<^verbatim>\<open>undefined\<close>, which is \<open>None\<close>.\<close>

definition ring_set :: "position \<Rightarrow> string \<Rightarrow> (position \<times> string) list \<Rightarrow> (position \<times> string) list" where
  "ring_set p x m = AList.update p x m"

definition ring_delete :: "position \<Rightarrow> (position \<times> string) list \<Rightarrow> (position \<times> string) list" where
  "ring_delete p m = AList.delete p m"

definition ring_get :: "(position \<times> string) list \<Rightarrow> position option \<Rightarrow> string option" where
  "ring_get m k = (case k of None \<Rightarrow> None | Some p \<Rightarrow> map_of m p)"

definition ring_keys :: "(position \<times> string) list \<Rightarrow> position list" where
  "ring_keys m = map fst m"

text \<open>\<^verbatim>\<open>Set.prototype.has\<close>, \<^verbatim>\<open>add\<close> and \<^verbatim>\<open>delete\<close>.\<close>

definition servers_has :: "string list \<Rightarrow> string \<Rightarrow> bool" where
  "servers_has xs x = (x \<in> set xs)"

definition servers_add :: "string \<Rightarrow> string list \<Rightarrow> string list" where
  "servers_add x xs = (if x \<in> set xs then xs else xs @ [x])"

definition servers_delete :: "string \<Rightarrow> string list \<Rightarrow> string list" where
  "servers_delete x xs = removeAll x xs"

text \<open>Reading an array: an index past the end reads as \<^verbatim>\<open>undefined\<close>, and every
  comparison of \<^verbatim>\<open>undefined\<close> with a number is false.\<close>

definition at :: "'a list \<Rightarrow> nat \<Rightarrow> 'a option" where
  "at xs i = (if i < length xs then Some (xs ! i) else None)"

definition js_lt :: "position option \<Rightarrow> position \<Rightarrow> bool" where
  "js_lt a p = (case a of None \<Rightarrow> False | Some q \<Rightarrow> q < p)"

definition js_ge :: "position option \<Rightarrow> position \<Rightarrow> bool" where
  "js_ge a p = (case a of None \<Rightarrow> False | Some q \<Rightarrow> p \<le> q)"

subsection \<open>Virtual nodes\<close>

text \<open>The decimal digits of a loop counter, as a template literal prints it.\<close>

fun decimal :: "nat \<Rightarrow> string" where
  "decimal n = (if n < 10 then [''0123456789'' ! n]
                else decimal (n div 10) @ [''0123456789'' ! (n mod 10)])"

declare decimal.simps [simp del]

definition virtualKey :: "string \<Rightarrow> nat \<Rightarrow> string" where
  "virtualKey server i = server @ '':'' @ decimal i"

text \<open>The loop of \<^verbatim>\<open>addServer\<close>: \<^verbatim>\<open>for (let i = 0; i < this.virtualNodes; i++)\<close>.\<close>

function add_loop :: "hash_function \<Rightarrow> string \<Rightarrow> int \<Rightarrow> nat \<Rightarrow> (position \<times> string) list \<Rightarrow> (position \<times> string) list" where
  "add_loop H server v i m =
     (if int i < v then add_loop H server v (Suc i) (ring_set (H (virtualKey server i)) server m)
      else m)"
  by pat_completeness auto
termination
  by (relation "measure (\<lambda>(H, server, v, i, m). nat (v - int i))") auto

declare add_loop.simps [simp del]

text \<open>The loop of \<^verbatim>\<open>removeServer\<close>.\<close>

function remove_loop :: "hash_function \<Rightarrow> string \<Rightarrow> int \<Rightarrow> nat \<Rightarrow> (position \<times> string) list \<Rightarrow> (position \<times> string) list" where
  "remove_loop H server v i m =
     (if int i < v then remove_loop H server v (Suc i) (ring_delete (H (virtualKey server i)) m)
      else m)"
  by pat_completeness auto
termination
  by (relation "measure (\<lambda>(H, server, v, i, m). nat (v - int i))") auto

declare remove_loop.simps [simp del]

subsection \<open>The operations\<close>

definition updateSortedPositions :: "ConsistentHash \<Rightarrow> ConsistentHash" where
  "updateSortedPositions s = s\<lparr>sortedPositions := sort (ring_keys (ring s))\<rparr>"

definition addServer :: "hash_function \<Rightarrow> string \<Rightarrow> ConsistentHash \<Rightarrow> ConsistentHash" where
  "addServer H server s =
     (if servers_has (servers s) server then s
      else updateSortedPositions
             (s\<lparr>servers := servers_add server (servers s),
                ring := add_loop H server (virtualNodes s) 0 (ring s)\<rparr>))"

definition removeServer :: "hash_function \<Rightarrow> string \<Rightarrow> ConsistentHash \<Rightarrow> ConsistentHash" where
  "removeServer H server s =
     (if \<not> servers_has (servers s) server then s
      else updateSortedPositions
             (s\<lparr>servers := servers_delete server (servers s),
                ring := remove_loop H server (virtualNodes s) 0 (ring s)\<rparr>))"

text \<open>The binary search of \<^verbatim>\<open>getServer\<close>: \<^verbatim>\<open>while (left < right)\<close>.\<close>

function search :: "position list \<Rightarrow> position \<Rightarrow> nat \<Rightarrow> nat \<Rightarrow> nat" where
  "search ps p left right =
     (if left < right then
        (let mid = (left + right) div 2 in
         if js_lt (at ps mid) p then search ps p (mid + 1) right
         else search ps p left mid)
      else left)"
  by pat_completeness auto
termination
  by (relation "measure (\<lambda>(ps, p, left, right). right - left)") auto

declare search.simps [simp del]

definition getServer :: "hash_function \<Rightarrow> ConsistentHash \<Rightarrow> string \<Rightarrow> error + string option" where
  "getServer H s key =
     (if length (sortedPositions s) = 0 then Inl NoServersAvailable
      else
        (let position = H key;
             left = search (sortedPositions s) position 0 (length (sortedPositions s) - 1);
             serverPosition =
               (if js_ge (at (sortedPositions s) left) position then at (sortedPositions s) left
                else at (sortedPositions s) 0)
         in Inr (ring_get (ring s) serverPosition)))"

text \<open>\<^verbatim>\<open>getDistribution\<close> counts in a plain object, \<^verbatim>\<open>const distribution = {}\<close>. The
  model keeps the own properties of that object. A property that is not an own property
  reads as \<^verbatim>\<open>undefined\<close> or as what \<^verbatim>\<open>Object.prototype\<close> holds under that name, which is
  never a number: incrementing it, or \<^verbatim>\<open>NaN\<close>, gives \<^verbatim>\<open>NaN\<close>. \<^verbatim>\<open>undefined\<close> used as a
  property name is the string \<^verbatim>\<open>"undefined"\<close>.

  An assignment creates or overwrites an own property, with one exception: the name
  \<^verbatim>\<open>__proto__\<close> is an accessor of \<^verbatim>\<open>Object.prototype\<close>, and its setter ignores a value that
  is neither an object nor \<^verbatim>\<open>null\<close>. Every value assigned here is a number, so an
  assignment to \<^verbatim>\<open>distribution["__proto__"]\<close> stores nothing and does not throw.\<close>

datatype count = Num nat | NaN

definition property_key :: "string option \<Rightarrow> string" where
  "property_key server = (case server of None \<Rightarrow> ''undefined'' | Some x \<Rightarrow> x)"

definition object_set :: "(string \<rightharpoonup> count) \<Rightarrow> string \<Rightarrow> count \<Rightarrow> (string \<rightharpoonup> count)" where
  "object_set d k c = (if k = ''__proto__'' then d else d(k \<mapsto> c))"

text \<open>\<^verbatim>\<open>distribution[server]++\<close>.\<close>

definition increment :: "(string \<rightharpoonup> count) \<Rightarrow> string option \<Rightarrow> (string \<rightharpoonup> count)" where
  "increment d server =
     (let k = property_key server
      in object_set d k (case d k of Some (Num n) \<Rightarrow> Num (n + 1) | _ \<Rightarrow> NaN))"

text \<open>\<^verbatim>\<open>this.servers.forEach((server) => { distribution[server] = 0; })\<close>.\<close>

definition zero_counts :: "string list \<Rightarrow> (string \<rightharpoonup> count)" where
  "zero_counts xs = fold (\<lambda>server d. object_set d server (Num 0)) xs Map.empty"

definition sampleKey :: "nat \<Rightarrow> string" where
  "sampleKey i = ''key_'' @ decimal i"

text \<open>The loop of \<^verbatim>\<open>getDistribution\<close>, \<^verbatim>\<open>for (let i = 0; i < 10000; i++)\<close>, with its
  bound \<open>n\<close>. An exception of \<^verbatim>\<open>getServer\<close> leaves the loop.\<close>

function distribution_loop ::
  "hash_function \<Rightarrow> ConsistentHash \<Rightarrow> nat \<Rightarrow> nat \<Rightarrow> (string \<rightharpoonup> count) \<Rightarrow> error + (string \<rightharpoonup> count)" where
  "distribution_loop H s n i d =
     (if i < n then
        (case getServer H s (sampleKey i) of
           Inl e \<Rightarrow> Inl e
         | Inr server \<Rightarrow> distribution_loop H s n (Suc i) (increment d server))
      else Inr d)"
  by pat_completeness auto
termination
  by (relation "measure (\<lambda>(H, s, n, i, d). n - i)") auto

declare distribution_loop.simps [simp del]

definition getDistribution :: "hash_function \<Rightarrow> ConsistentHash \<Rightarrow> error + (string \<rightharpoonup> count)" where
  "getDistribution H s = distribution_loop H s 10000 0 (zero_counts (servers s))"

subsection \<open>The ring as its caller sees it\<close>

text \<open>A call of a public method returns or throws, and leaves the object in a state.
  \<^verbatim>\<open>addServer\<close> and \<^verbatim>\<open>removeServer\<close> assign to the fields and never throw;
  \<^verbatim>\<open>getServer\<close> and \<^verbatim>\<open>getDistribution\<close> contain no assignment to a field.\<close>

datatype request = AddServer string | RemoveServer string | GetServer string | GetDistribution

datatype response =
    Returned
  | Server "string option"
  | Distribution "string \<rightharpoonup> count"
  | Thrown error

fun call :: "hash_function \<Rightarrow> request \<Rightarrow> ConsistentHash \<Rightarrow> response \<times> ConsistentHash" where
  "call H (AddServer x) s = (Returned, addServer H x s)"
| "call H (RemoveServer x) s = (Returned, removeServer H x s)"
| "call H (GetServer k) s =
     ((case getServer H s k of Inl e \<Rightarrow> Thrown e | Inr r \<Rightarrow> Server r), s)"
| "call H GetDistribution s =
     ((case getDistribution H s of Inl e \<Rightarrow> Thrown e | Inr d \<Rightarrow> Distribution d), s)"

text \<open>The state after \<^verbatim>\<open>new ConsistentHash(v)\<close> and a sequence of calls: these are the
  reachable states.\<close>

definition run :: "hash_function \<Rightarrow> int \<Rightarrow> request list \<Rightarrow> ConsistentHash" where
  "run H v reqs = foldl (\<lambda>s r. snd (call H r s)) (constructor v) reqs"

subsection \<open>Notions of the specification\<close>

text \<open>The virtual-node positions of a server, in the order the loops visit them.\<close>

definition virtualPositions :: "hash_function \<Rightarrow> int \<Rightarrow> string \<Rightarrow> position list" where
  "virtualPositions H v server = map (\<lambda>i. H (virtualKey server i)) [0..<nat v]"

text \<open>The clockwise successor of a hash among a set of positions: the smallest
  position at or after it, and the smallest position of all when there is none.\<close>

definition clockwise_successor :: "position list \<Rightarrow> position \<Rightarrow> position" where
  "clockwise_successor ps h =
     (if \<exists>q\<in>set ps. h \<le> q then Min {q \<in> set ps. h \<le> q} else Min (set ps))"

text \<open>The servers a sequence of calls adds.\<close>

fun added :: "request list \<Rightarrow> string list" where
  "added [] = []"
| "added (AddServer x # reqs) = x # added reqs"
| "added (r # reqs) = added reqs"

text \<open>No virtual-node position of one server is a virtual-node position of another.\<close>

definition collision_free :: "hash_function \<Rightarrow> int \<Rightarrow> string list \<Rightarrow> bool" where
  "collision_free H v xs =
     (\<forall>x\<in>set xs. \<forall>y\<in>set xs. x \<noteq> y \<longrightarrow>
        set (virtualPositions H v x) \<inter> set (virtualPositions H v y) = {})"

subsection \<open>Sample values of the hash\<close>

text \<open>The first 32 bits of the MD5 digest of the strings used in the examples below, as
  \<^verbatim>\<open>md5sum\<close> prints them; any other string is sent to 0, which is not its digest.
  The digests of \<^verbatim>\<open>server30783:0\<close> and \<^verbatim>\<open>server54582:0\<close> begin with the same eight
  hexadecimal digits, \<^verbatim>\<open>2b5e3ed8\<close>.\<close>

definition md5_table :: "(string \<times> position) list" where
  "md5_table =
    [(''server1:0'', 0x1E407DFD),
     (''server1:1'', 0x768EA2EC),
     (''server1:2'', 0x7E21E857),
     (''server2:0'', 0xC74A2E65),
     (''server2:1'', 0xAA6EA899),
     (''server2:2'', 0x05AB7DE9),
     (''server3:0'', 0x4A7F729B),
     (''server3:1'', 0x9BBD4D72),
     (''server3:2'', 0x2DDF6E91),
     (''server4:0'', 0x332428E1),
     (''server4:1'', 0xE6B518BF),
     (''server4:2'', 0x87392A43),
     (''server30783:0'', 0x2B5E3ED8),
     (''server54582:0'', 0x2B5E3ED8),
     (''event_1234'', 0xFD86B759),
     (''event_5678'', 0xEFBCA956),
     (''event_9999'', 0x37AA1C48),
     (''event_4567'', 0xB1C09F95),
     (''event_8888'', 0x5F67EE60),
     (''key_0'', 0x9A53CBCC),
     (''key_4'', 0xD261B2F5)]"

definition md5_sample :: hash_function where
  "md5_sample k = (case map_of md5_table k of Some p \<Rightarrow> p | None \<Rightarrow> 0)"

subsection \<open>Invariants of the reachable states\<close>

text \<open>The keys of the \<^verbatim>\<open>Map\<close> are pairwise different, and the array of positions is
  the sorted list of these keys.\<close>

definition ring_ok :: "ConsistentHash \<Rightarrow> bool" where
  "ring_ok s \<longleftrightarrow> distinct (map fst (ring s)) \<and> sortedPositions s = sort (map fst (ring s))"

text \<open>Every entry of the ring sits at a virtual-node position of the server it names,
  and that server is registered.\<close>

definition owned :: "hash_function \<Rightarrow> ConsistentHash \<Rightarrow> bool" where
  "owned H s \<longleftrightarrow>
     (\<forall>p y. map_of (ring s) p = Some y \<longrightarrow>
        y \<in> set (servers s) \<and> p \<in> set (virtualPositions H (virtualNodes s) y))"

text \<open>Every virtual-node position of a registered server holds that server.\<close>

definition populated :: "hash_function \<Rightarrow> ConsistentHash \<Rightarrow> bool" where
  "populated H s \<longleftrightarrow>
     (\<forall>x\<in>set (servers s). \<forall>p\<in>set (virtualPositions H (virtualNodes s) x).
        map_of (ring s) p = Some x)"

subsection \<open>The calls of the demonstration\<close>

text \<open>\<^verbatim>\<open>demonstrateConsistentHashing\<close> builds a ring with three virtual nodes per server
  and adds three servers.\<close>

definition demo :: "request list" where
  "demo = [AddServer ''server1'', AddServer ''server2'', AddServer ''server3'']"

text \<open>With one virtual node per server, the only positions of \<^verbatim>\<open>server30783\<close> and of
  \<^verbatim>\<open>server54582\<close> coincide.\<close>

definition colliding :: "request list" where
  "colliding = [AddServer ''server30783'', AddServer ''server54582'', RemoveServer ''server54582'']"

section \<open>Properties\<close>

subsection \<open>The loops as folds over the virtual-node positions\<close>

lemma add_loop_fold:
  "add_loop H x v i m = fold (\<lambda>j. ring_set (H (virtualKey x j)) x) [i..<nat v] m"
proof (induction H x v i m rule: add_loop.induct)
  case (1 H server v i m)
  show ?case
  proof (cases "int i < v")
    case True
    then have "[i..<nat v] = i # [Suc i..<nat v]"
      by (simp add: upt_conv_Cons)
    with True 1 show ?thesis
      by (subst add_loop.simps) simp
  next
    case False
    then show ?thesis
      by (subst add_loop.simps) simp
  qed
qed

lemma remove_loop_fold:
  "remove_loop H x v i m = fold (\<lambda>j. ring_delete (H (virtualKey x j))) [i..<nat v] m"
proof (induction H x v i m rule: remove_loop.induct)
  case (1 H server v i m)
  show ?case
  proof (cases "int i < v")
    case True
    then have "[i..<nat v] = i # [Suc i..<nat v]"
      by (simp add: upt_conv_Cons)
    with True 1 show ?thesis
      by (subst remove_loop.simps) simp
  next
    case False
    then show ?thesis
      by (subst remove_loop.simps) simp
  qed
qed

lemma ring_set_eq: "ring_set p x = AList.update p x"
  by (rule ext) (simp add: ring_set_def)

lemma ring_delete_eq: "ring_delete p = AList.delete p"
  by (rule ext) (simp add: ring_delete_def)

lemma add_loop_positions:
  "add_loop H x v 0 m = fold (\<lambda>p. AList.update p x) (virtualPositions H v x) m"
  by (simp add: add_loop_fold virtualPositions_def fold_map comp_def ring_set_eq)

lemma remove_loop_positions:
  "remove_loop H x v 0 m = fold AList.delete (virtualPositions H v x) m"
  by (simp add: remove_loop_fold virtualPositions_def fold_map comp_def ring_delete_eq)

lemma map_of_fold_update:
  "map_of (fold (\<lambda>p. AList.update p x) ps m) q = (if q \<in> set ps then Some x else map_of m q)"
  by (induction ps arbitrary: m) (auto simp: update_conv')

lemma keys_fold_update:
  "fst ` set (fold (\<lambda>p. AList.update p x) ps m) = set ps \<union> fst ` set m"
  by (induction ps arbitrary: m) (auto simp: dom_update)

lemma distinct_fold_update:
  "distinct (map fst m) \<Longrightarrow> distinct (map fst (fold (\<lambda>p. AList.update p x) ps m))"
  by (induction ps arbitrary: m) (auto simp: distinct_update)

lemma fold_delete_filter:
  "fold AList.delete ps m = filter (\<lambda>e. fst e \<notin> set ps) m"
proof (induction ps arbitrary: m)
  case Nil
  show ?case by simp
next
  case (Cons p ps)
  have "AList.delete p m = filter (\<lambda>e. fst e \<noteq> p) m"
    by (auto simp: AList.delete_eq split_def intro: filter_cong) 
  then show ?case
    using Cons by (auto intro: filter_cong)
qed

subsection \<open>The fields after a membership call\<close>

lemma addServer_new:
  assumes "x \<notin> set (servers s)"
  shows "ring (addServer H x s) = fold (\<lambda>p. AList.update p x) (virtualPositions H (virtualNodes s) x) (ring s)"
    and "servers (addServer H x s) = servers s @ [x]"
    and "sortedPositions (addServer H x s) = sort (map fst (ring (addServer H x s)))"
    and "virtualNodes (addServer H x s) = virtualNodes s"
  using assms
  by (simp_all add: addServer_def servers_has_def servers_add_def updateSortedPositions_def
      ring_keys_def add_loop_positions)

lemma addServer_old: "x \<in> set (servers s) \<Longrightarrow> addServer H x s = s"
  by (simp add: addServer_def servers_has_def)

lemma removeServer_old:
  assumes "x \<in> set (servers s)"
  shows "ring (removeServer H x s) = filter (\<lambda>e. fst e \<notin> set (virtualPositions H (virtualNodes s) x)) (ring s)"
    and "servers (removeServer H x s) = removeAll x (servers s)"
    and "sortedPositions (removeServer H x s) = sort (map fst (ring (removeServer H x s)))"
    and "virtualNodes (removeServer H x s) = virtualNodes s"
  using assms
  by (simp_all add: removeServer_def servers_has_def servers_delete_def updateSortedPositions_def
      ring_keys_def remove_loop_positions fold_delete_filter)

lemma removeServer_new: "x \<notin> set (servers s) \<Longrightarrow> removeServer H x s = s"
  by (simp add: removeServer_def servers_has_def)

lemma virtualNodes_addServer: "virtualNodes (addServer H x s) = virtualNodes s"
  by (cases "x \<in> set (servers s)") (simp_all add: addServer_old addServer_new)

lemma virtualNodes_removeServer: "virtualNodes (removeServer H x s) = virtualNodes s"
  by (cases "x \<in> set (servers s)") (simp_all add: removeServer_old removeServer_new)

subsection \<open>The sorted array is never out of date\<close>

lemma ring_ok_constructor: "ring_ok (constructor v)"
  by (simp add: ring_ok_def constructor_def)

lemma ring_ok_addServer: "ring_ok s \<Longrightarrow> ring_ok (addServer H x s)"
  by (cases "x \<in> set (servers s)")
     (simp_all add: addServer_old ring_ok_def addServer_new distinct_fold_update)

lemma ring_ok_removeServer: "ring_ok s \<Longrightarrow> ring_ok (removeServer H x s)"
  by (cases "x \<in> set (servers s)")
     (simp_all add: removeServer_new ring_ok_def removeServer_old distinct_map_filter)

lemma ring_ok_call: "ring_ok s \<Longrightarrow> ring_ok (snd (call H r s))"
  by (cases r) (simp_all add: ring_ok_addServer ring_ok_removeServer)

lemma run_Nil: "run H v [] = constructor v"
  by (simp add: run_def)

lemma run_snoc: "run H v (reqs @ [r]) = snd (call H r (run H v reqs))"
  by (simp add: run_def)

lemma run_append: "run H v (reqs @ rest) = foldl (\<lambda>s r. snd (call H r s)) (run H v reqs) rest"
  by (simp add: run_def)

lemma ring_ok_run: "ring_ok (run H v reqs)"
  by (induction reqs rule: rev_induct) (simp_all add: run_Nil run_snoc ring_ok_constructor ring_ok_call)

lemma virtualNodes_call: "virtualNodes (snd (call H r s)) = virtualNodes s"
  by (cases r) (simp_all add: virtualNodes_addServer virtualNodes_removeServer)

lemma virtualNodes_run: "virtualNodes (run H v reqs) = v"
  by (induction reqs rule: rev_induct)
     (simp_all add: run_Nil run_snoc virtualNodes_call constructor_def)

subsection \<open>The binary search finds the clockwise successor\<close>

text \<open>The invariant of the loop: every position left of \<open>left\<close> is below the hash, and
  the position at \<open>right\<close> is at or after it unless \<open>right\<close> is still the last index.\<close>

lemma search_spec:
  "sorted ps \<Longrightarrow> left \<le> right \<Longrightarrow> right < length ps \<Longrightarrow> \<forall>i<left. ps ! i < p \<Longrightarrow>
   right = length ps - 1 \<or> p \<le> ps ! right \<Longrightarrow>
   search ps p left right < length ps \<and> (\<forall>i. i < search ps p left right \<longrightarrow> ps ! i < p) \<and>
   (search ps p left right = length ps - 1 \<or> p \<le> ps ! search ps p left right)"
proof (induction ps p left right rule: search.induct)
  case (1 ps p left right)
  show ?case
  proof (cases "left < right")
    case False
    with "1.prems" have "left = right" by simp
    with "1.prems" show ?thesis
      by (subst (1 2 3 4) search.simps) simp
  next
    case True
    define mid where "mid = (left + right) div 2"
    from True have mid: "left \<le> mid" "mid < right"
      by (simp_all add: mid_def)
    with "1.prems" have in_range: "mid < length ps" by simp
    show ?thesis
    proof (cases "ps ! mid < p")
      case below: True
      have "\<forall>i<mid + 1. ps ! i < p"
      proof (intro allI impI)
        fix i assume "i < mid + 1"
        then have "ps ! i \<le> ps ! mid"
          using \<open>sorted ps\<close> in_range by (simp add: sorted_nth_mono)
        with below show "ps ! i < p" by simp
      qed
      with "1.IH"(1) [OF True mid_def] below in_range mid "1.prems"
      have "search ps p (mid + 1) right < length ps \<and>
        (\<forall>i. i < search ps p (mid + 1) right \<longrightarrow> ps ! i < p) \<and>
        (search ps p (mid + 1) right = length ps - 1 \<or> p \<le> ps ! search ps p (mid + 1) right)"
        by (simp add: at_def js_lt_def)
      moreover have "search ps p left right = search ps p (mid + 1) right"
        using True below in_range
        by (subst search.simps) (simp add: mid_def [symmetric] at_def js_lt_def Let_def)
      ultimately show ?thesis by simp
    next
      case above: False
      then have "p \<le> ps ! mid" by simp
      with "1.IH"(2) [OF True mid_def] in_range mid "1.prems"
      have "search ps p left mid < length ps \<and>
        (\<forall>i. i < search ps p left mid \<longrightarrow> ps ! i < p) \<and>
        (search ps p left mid = length ps - 1 \<or> p \<le> ps ! search ps p left mid)"
        by (simp add: at_def js_lt_def)
      moreover have "search ps p left right = search ps p left mid"
        using True above in_range
        by (subst search.simps) (simp add: mid_def [symmetric] at_def js_lt_def Let_def)
      ultimately show ?thesis by simp
    qed
  qed
qed

lemma getServer_empty: "ring_ok s \<Longrightarrow> ring s = [] \<Longrightarrow> getServer H s k = Inl NoServersAvailable"
  by (simp add: getServer_def ring_ok_def)

lemma getServer_successor:
  assumes ok: "ring_ok s" and ne: "ring s \<noteq> []"
  shows "getServer H s k = Inr (map_of (ring s) (clockwise_successor (sortedPositions s) (H k)))"
    and "clockwise_successor (sortedPositions s) (H k) \<in> set (sortedPositions s)"
proof -
  define ps where "ps = sortedPositions s"
  define h where "h = H k"
  define r where "r = search ps h 0 (length ps - 1)"
  from ok have ps: "ps = sort (map fst (ring s))"
    by (simp add: ring_ok_def ps_def)
  then have srt: "sorted ps" by simp
  from ps ne have len: "0 < length ps" by simp
  from search_spec [of ps 0 "length ps - 1" h] srt len
  have r: "r < length ps" "\<forall>i. i < r \<longrightarrow> ps ! i < h" "r = length ps - 1 \<or> h \<le> ps ! r"
    by (simp_all add: r_def)
  have chosen: "clockwise_successor ps h = (if h \<le> ps ! r then ps ! r else ps ! 0)"
  proof (cases "h \<le> ps ! r")
    case True
    with r(1) have ex: "\<exists>q\<in>set ps. h \<le> q" by auto
    have "Min {q \<in> set ps. h \<le> q} = ps ! r"
    proof (rule Min_eqI)
      show "finite {q \<in> set ps. h \<le> q}" by simp
      show "ps ! r \<in> {q \<in> set ps. h \<le> q}" using True r(1) by simp
    next
      fix y assume "y \<in> {q \<in> set ps. h \<le> q}"
      then obtain j where j: "j < length ps" "y = ps ! j" "h \<le> ps ! j"
        by (auto simp: in_set_conv_nth)
      have "r \<le> j"
      proof (rule ccontr)
        assume "\<not> r \<le> j"
        with r(2) have "ps ! j < h" by simp
        with j show False by simp
      qed
      with srt j show "ps ! r \<le> y" by (simp add: sorted_nth_mono)
    qed
    with ex True show ?thesis by (simp add: clockwise_successor_def)
  next
    case False
    with r(3) have last: "r = length ps - 1" "ps ! (length ps - 1) < h" by auto
    have none: "\<not> (\<exists>q\<in>set ps. h \<le> q)"
    proof
      assume "\<exists>q\<in>set ps. h \<le> q"
      then obtain j where j: "j < length ps" "h \<le> ps ! j"
        by (auto simp: in_set_conv_nth)
      with srt have "ps ! j \<le> ps ! (length ps - 1)" by (simp add: sorted_nth_mono)
      with j last show False by simp
    qed
    have "Min (set ps) = ps ! 0"
    proof (rule Min_eqI)
      show "finite (set ps)" by simp
      show "ps ! 0 \<in> set ps" using len by simp
    next
      fix y assume "y \<in> set ps"
      then obtain j where "j < length ps" "y = ps ! j"
        by (auto simp: in_set_conv_nth)
      with srt show "ps ! 0 \<le> y" by (simp add: sorted_nth_mono)
    qed
    with none False show ?thesis by (simp add: clockwise_successor_def)
  qed
  have "getServer H s k = Inr (map_of (ring s) (if h \<le> ps ! r then ps ! r else ps ! 0))"
    using len r(1) unfolding r_def ps_def h_def
    by (simp add: getServer_def Let_def at_def js_ge_def ring_get_def)
  with chosen show "getServer H s k = Inr (map_of (ring s) (clockwise_successor (sortedPositions s) (H k)))"
    unfolding ps_def h_def by simp
  have "clockwise_successor ps h \<in> set ps"
    using chosen r(1) len by simp
  then show "clockwise_successor (sortedPositions s) (H k) \<in> set (sortedPositions s)"
    unfolding ps_def h_def .
qed

subsection \<open>Successors among fewer positions\<close>

text \<open>When the successor among a set of positions lies in a subset, it is the successor
  among the subset too. Removing a server shrinks the set and adding one enlarges it.\<close>

lemma clockwise_successor_subset:
  assumes sub: "set qs \<subseteq> set ps" and mem: "clockwise_successor ps h \<in> set qs"
  shows "clockwise_successor qs h = clockwise_successor ps h"
proof (cases "\<exists>q\<in>set ps. h \<le> q")
  case True
  then have c: "clockwise_successor ps h = Min {q \<in> set ps. h \<le> q}"
    by (simp add: clockwise_successor_def)
  from True have "Min {q \<in> set ps. h \<le> q} \<in> {q \<in> set ps. h \<le> q}"
    by (intro Min_in) auto
  with c have ge: "h \<le> clockwise_successor ps h" by simp
  with mem have ex: "\<exists>q\<in>set qs. h \<le> q" by blast
  have "Min {q \<in> set qs. h \<le> q} = clockwise_successor ps h"
  proof (rule Min_eqI)
    show "finite {q \<in> set qs. h \<le> q}" by simp
    show "clockwise_successor ps h \<in> {q \<in> set qs. h \<le> q}" using mem ge by simp
  next
    fix y assume "y \<in> {q \<in> set qs. h \<le> q}"
    with sub have "y \<in> {q \<in> set ps. h \<le> q}" by auto
    then have "Min {q \<in> set ps. h \<le> q} \<le> y" by (intro Min_le) auto
    with c show "clockwise_successor ps h \<le> y" by simp
  qed
  with ex show ?thesis by (simp add: clockwise_successor_def)
next
  case False
  then have c: "clockwise_successor ps h = Min (set ps)"
    by (simp add: clockwise_successor_def)
  from False sub have none: "\<not> (\<exists>q\<in>set qs. h \<le> q)" by blast
  have "Min (set qs) = clockwise_successor ps h"
  proof (rule Min_eqI)
    show "finite (set qs)" by simp
    show "clockwise_successor ps h \<in> set qs" by (rule mem)
  next
    fix y assume "y \<in> set qs"
    with sub have "y \<in> set ps" by auto
    then have "Min (set ps) \<le> y" by (intro Min_le) auto
    with c show "clockwise_successor ps h \<le> y" by simp
  qed
  with none show ?thesis by (simp add: clockwise_successor_def)
qed

subsection \<open>Every entry belongs to a registered server\<close>

lemma map_of_filter_keys:
  "map_of (filter (\<lambda>e. fst e \<notin> A) m) p = (if p \<notin> A then map_of m p else None)"
  by (induction m) auto

lemma owned_constructor: "owned H (constructor v)"
  by (simp add: owned_def constructor_def)

lemma owned_addServer: "owned H s \<Longrightarrow> owned H (addServer H x s)"
  by (cases "x \<in> set (servers s)")
     (auto simp: addServer_old addServer_new owned_def map_of_fold_update split: if_splits)

lemma owned_removeServer: "owned H s \<Longrightarrow> owned H (removeServer H x s)"
  by (cases "x \<in> set (servers s)")
     (auto simp: removeServer_new removeServer_old owned_def map_of_filter_keys split: if_splits)

lemma owned_call: "owned H s \<Longrightarrow> owned H (snd (call H r s))"
  by (cases r) (simp_all add: owned_addServer owned_removeServer)

lemma owned_run: "owned H (run H v reqs)"
  by (induction reqs rule: rev_induct) (simp_all add: run_Nil run_snoc owned_constructor owned_call)

lemma keys_sortedPositions: "ring_ok s \<Longrightarrow> set (sortedPositions s) = fst ` set (ring s)"
  by (simp add: ring_ok_def)

lemma entry_map_of: "ring_ok s \<Longrightarrow> (p, y) \<in> set (ring s) \<Longrightarrow> map_of (ring s) p = Some y"
  by (simp add: ring_ok_def)

lemma getServer_registered:
  assumes "ring_ok s" "owned H s" "ring s \<noteq> []"
  shows "\<exists>x\<in>set (servers s). getServer H s k = Inr (Some x)"
proof -
  let ?c = "clockwise_successor (sortedPositions s) (H k)"
  from assms have "?c \<in> fst ` set (ring s)"
    using getServer_successor(2) [of s H k] by (simp add: keys_sortedPositions)
  then obtain y where y: "map_of (ring s) ?c = Some y"
    by (metis map_of_eq_None_iff not_None_eq)
  with assms(2) have "y \<in> set (servers s)" by (simp add: owned_def)
  with y assms show ?thesis
    using getServer_successor(1) [of s H k] by simp
qed

lemma servers_empty_ring:
  assumes "ring_ok s" "owned H s" "servers s = []"
  shows "ring s = []"
proof (rule ccontr)
  assume "ring s \<noteq> []"
  then obtain p y where "(p, y) \<in> set (ring s)"
    by (cases "ring s") auto
  with assms(1) have "map_of (ring s) p = Some y" by (rule entry_map_of)
  with assms(2,3) show False by (simp add: owned_def)
qed

subsection \<open>The states of the examples\<close>

lemmas eval_defs = constructor_def addServer_def removeServer_def servers_has_def servers_add_def
  servers_delete_def updateSortedPositions_def add_loop.simps remove_loop.simps ring_set_def ring_delete_def
  virtualKey_def decimal.simps md5_sample_def md5_table_def ring_keys_def

lemma demo_state:
  "run md5_sample 3 demo =
    \<lparr>virtualNodes = 3,
     ring = [(0x1E407DFD, ''server1''), (0x768EA2EC, ''server1''), (0x7E21E857, ''server1''),
             (0xC74A2E65, ''server2''), (0xAA6EA899, ''server2''), (0x05AB7DE9, ''server2''),
             (0x4A7F729B, ''server3''), (0x9BBD4D72, ''server3''), (0x2DDF6E91, ''server3'')],
     servers = [''server1'', ''server2'', ''server3''],
     sortedPositions = [0x05AB7DE9, 0x1E407DFD, 0x2DDF6E91, 0x4A7F729B, 0x768EA2EC, 0x7E21E857,
                        0x9BBD4D72, 0xAA6EA899, 0xC74A2E65]\<rparr>"
  by (simp add: run_def demo_def eval_defs)

lemma clockwise_successor_code:
  "clockwise_successor ps h =
     (if filter (\<lambda>q. h \<le> q) ps = [] then Min (set ps) else Min (set (filter (\<lambda>q. h \<le> q) ps)))"
  by (auto simp: clockwise_successor_def filter_empty_conv)

lemmas lookup_defs = getServer_def search.simps at_def js_lt_def js_ge_def ring_get_def Let_def

lemma virtualPositions_3:
  "virtualPositions H 3 x = [H (virtualKey x 0), H (virtualKey x 1), H (virtualKey x 2)]"
proof -
  have "[0..<nat 3] = [0, 1, 2]"
    by (simp add: upt_rec)
  then show ?thesis
    by (simp add: virtualPositions_def)
qed

lemmas positions_defs = virtualPositions_3 virtualKey_def decimal.simps md5_sample_def md5_table_def

lemma md5_values:
  "md5_sample ''event_1234'' = 0xFD86B759"
  "md5_sample ''event_5678'' = 0xEFBCA956"
  "md5_sample ''event_9999'' = 0x37AA1C48"
  "md5_sample ''event_4567'' = 0xB1C09F95"
  "md5_sample ''event_8888'' = 0x5F67EE60"
  "md5_sample ''key_0'' = 0x9A53CBCC"
  "md5_sample ''key_4'' = 0xD261B2F5"
  by (simp_all add: md5_sample_def md5_table_def)

lemma demo_positions:
  "virtualPositions md5_sample 3 ''server1'' = [0x1E407DFD, 0x768EA2EC, 0x7E21E857]"
  "virtualPositions md5_sample 3 ''server2'' = [0xC74A2E65, 0xAA6EA899, 0x05AB7DE9]"
  "virtualPositions md5_sample 3 ''server3'' = [0x4A7F729B, 0x9BBD4D72, 0x2DDF6E91]"
  "virtualPositions md5_sample 3 ''server4'' = [0x332428E1, 0xE6B518BF, 0x87392A43]"
  by (simp_all add: positions_defs)

lemma demo_server4:
  "addServer md5_sample ''server4'' (run md5_sample 3 demo) =
    \<lparr>virtualNodes = 3,
     ring = [(0x1E407DFD, ''server1''), (0x768EA2EC, ''server1''), (0x7E21E857, ''server1''),
             (0xC74A2E65, ''server2''), (0xAA6EA899, ''server2''), (0x05AB7DE9, ''server2''),
             (0x4A7F729B, ''server3''), (0x9BBD4D72, ''server3''), (0x2DDF6E91, ''server3''),
             (0x332428E1, ''server4''), (0xE6B518BF, ''server4''), (0x87392A43, ''server4'')],
     servers = [''server1'', ''server2'', ''server3'', ''server4''],
     sortedPositions = [0x05AB7DE9, 0x1E407DFD, 0x2DDF6E91, 0x332428E1, 0x4A7F729B, 0x768EA2EC,
                        0x7E21E857, 0x87392A43, 0x9BBD4D72, 0xAA6EA899, 0xC74A2E65, 0xE6B518BF]\<rparr>"
  by (simp add: demo_state eval_defs)

lemma demo_server4_removed:
  "removeServer md5_sample ''server4'' (addServer md5_sample ''server4'' (run md5_sample 3 demo)) =
   run md5_sample 3 demo"
  by (simp add: demo_server4) (simp add: demo_state eval_defs)

lemma demo_server2_removed:
  "removeServer md5_sample ''server2'' (run md5_sample 3 demo) =
    \<lparr>virtualNodes = 3,
     ring = [(0x1E407DFD, ''server1''), (0x768EA2EC, ''server1''), (0x7E21E857, ''server1''),
             (0x4A7F729B, ''server3''), (0x9BBD4D72, ''server3''), (0x2DDF6E91, ''server3'')],
     servers = [''server1'', ''server3''],
     sortedPositions = [0x1E407DFD, 0x2DDF6E91, 0x4A7F729B, 0x768EA2EC, 0x7E21E857, 0x9BBD4D72]\<rparr>"
  by (simp add: demo_state eval_defs)

lemma single_server_state:
  "addServer md5_sample ''server1'' (run md5_sample 3 []) =
    \<lparr>virtualNodes = 3,
     ring = [(0x1E407DFD, ''server1''), (0x768EA2EC, ''server1''), (0x7E21E857, ''server1'')],
     servers = [''server1''],
     sortedPositions = [0x1E407DFD, 0x768EA2EC, 0x7E21E857]\<rparr>"
  by (simp add: run_def eval_defs)

lemma colliding_state:
  "run md5_sample 1 colliding =
    \<lparr>virtualNodes = 1, ring = [], servers = [''server30783''], sortedPositions = []\<rparr>"
  by (simp add: run_def colliding_def eval_defs)

subsection \<open>Lookup\<close>

lemma hd_sorted_Min: "sorted ps \<Longrightarrow> ps \<noteq> [] \<Longrightarrow> hd ps = Min (set ps)"
proof (cases ps)
  case Nil
  assume "ps \<noteq> []"
  with Nil show ?thesis by simp
next
  case (Cons a as)
  assume "sorted ps"
  with Cons have "\<forall>y\<in>set ps. a \<le> y" by auto
  then have "Min (set ps) = a"
    using Cons by (intro Min_eqI) auto
  with Cons show ?thesis by simp
qed

text \<open>
  \<^bold>\<open>C1\<close>. In every reachable state whose ring has an entry, \<^verbatim>\<open>getServer(key)\<close> returns
  the entry of the ring at the clockwise successor of the hash of the key among the
  sorted positions: the smallest position at or after the hash, and the smallest
  position of all, which is the first element of the array, when no position is at or
  after the hash.
\<close>

theorem getServer_clockwise_successor:
  assumes "s = run H v reqs" and "ring s \<noteq> []"
  shows "getServer H s key =
           Inr (map_of (ring s) (clockwise_successor (sortedPositions s) (H key))) \<and>
         clockwise_successor (sortedPositions s) (H key) \<in> fst ` set (ring s) \<and>
         hd (sortedPositions s) = Min (set (sortedPositions s))"
proof -
  from assms(1) have ok: "ring_ok s" by (simp add: ring_ok_run)
  then have "length (sortedPositions s) = length (ring s)" "sorted (sortedPositions s)"
    by (simp_all add: ring_ok_def)
  with assms(2) have "sorted (sortedPositions s)" "sortedPositions s \<noteq> []"
    by auto
  then have "hd (sortedPositions s) = Min (set (sortedPositions s))"
    by (rule hd_sorted_Min)
  with ok assms(2) show ?thesis
    using getServer_successor [of s H key] by (simp add: keys_sortedPositions)
qed

theorem getServer_clockwise_successor_witness:
  "ring (run md5_sample 3 demo) \<noteq> [] \<and>
   getServer md5_sample (run md5_sample 3 demo) ''event_1234'' = Inr (Some ''server2'') \<and>
   getServer md5_sample (run md5_sample 3 demo) ''event_9999'' = Inr (Some ''server3'')"
  using getServer_clockwise_successor [of _ md5_sample 3 demo "''event_1234''", OF refl]
    getServer_clockwise_successor [of _ md5_sample 3 demo "''event_9999''", OF refl]
  by (simp add: demo_state clockwise_successor_code md5_sample_def md5_table_def)

text \<open>
  \<^bold>\<open>C5\<close>. After the construction and after every call that follows it, the array of
  positions is the list of the keys of the ring sorted in ascending order, and these keys
  are pairwise different. A lookup is such a call and runs in such a state, so it never
  reads an array that is out of date.
\<close>

theorem sortedPositions_never_stale:
  "sortedPositions (run H v reqs) = sort (ring_keys (ring (run H v reqs))) \<and>
   distinct (ring_keys (ring (run H v reqs)))"
  using ring_ok_run [of H v reqs] by (simp add: ring_ok_def ring_keys_def)

theorem sortedPositions_never_stale_witness:
  "sortedPositions (run md5_sample 3 (demo @ [GetServer ''event_1234'', RemoveServer ''server2''])) =
     [0x1E407DFD, 0x2DDF6E91, 0x4A7F729B, 0x768EA2EC, 0x7E21E857, 0x9BBD4D72] \<and>
   sort (ring_keys (ring (run md5_sample 3 (demo @ [GetServer ''event_1234'', RemoveServer ''server2''])))) =
     [0x1E407DFD, 0x2DDF6E91, 0x4A7F729B, 0x768EA2EC, 0x7E21E857, 0x9BBD4D72]"
  using sortedPositions_never_stale [of md5_sample 3 "demo @ [GetServer ''event_1234'', RemoveServer ''server2'']"]
  by (simp add: run_append demo_server2_removed ring_keys_def)

text \<open>
  \<^bold>\<open>C10\<close>. In every reachable state every value stored in the ring is a registered
  server, and when the ring has an entry \<^verbatim>\<open>getServer\<close> returns a registered server:
  it neither throws nor returns \<^verbatim>\<open>undefined\<close>.
\<close>

theorem ring_values_registered:
  assumes "s = run H v reqs"
  shows "(\<forall>e\<in>set (ring s). snd e \<in> set (servers s)) \<and>
         (ring s \<noteq> [] \<longrightarrow> (\<exists>x\<in>set (servers s). getServer H s key = Inr (Some x)))"
proof -
  from assms have ok: "ring_ok s" and own: "owned H s"
    by (simp_all add: ring_ok_run owned_run)
  have "snd e \<in> set (servers s)" if "e \<in> set (ring s)" for e
  proof -
    from that ok have "map_of (ring s) (fst e) = Some (snd e)"
      by (intro entry_map_of) simp_all
    with own show ?thesis by (simp add: owned_def)
  qed
  with ok own show ?thesis
    by (auto dest: getServer_registered)
qed

theorem ring_values_registered_witness:
  "snd ` set (ring (run md5_sample 3 demo)) \<subseteq> set (servers (run md5_sample 3 demo)) \<and>
   ring (run md5_sample 3 demo) \<noteq> [] \<and>
   (\<exists>x\<in>set (servers (run md5_sample 3 demo)).
      getServer md5_sample (run md5_sample 3 demo) ''event_8888'' = Inr (Some x))"
  using ring_values_registered [of _ md5_sample 3 demo "''event_8888''", OF refl]
  by (simp add: demo_state)

subsection \<open>Removal and idempotence\<close>

lemma removeServer_keys:
  "x \<in> set (servers s) \<Longrightarrow>
   fst ` set (ring (removeServer H x s)) = fst ` set (ring s) - set (virtualPositions H (virtualNodes s) x)"
  by (auto simp: removeServer_old)

text \<open>
  \<^bold>\<open>C6\<close>. After \<^verbatim>\<open>addServer(x)\<close> and then \<^verbatim>\<open>removeServer(x)\<close> in a reachable state, the
  ring has no entry at a virtual-node position of \<open>x\<close>, no entry of the ring maps to \<open>x\<close>,
  \<open>x\<close> is not registered, and \<^verbatim>\<open>getServer\<close> returns \<open>x\<close> for no key.
\<close>

theorem removal_complete:
  assumes "s = removeServer H x (addServer H x (run H v reqs))"
  shows "set (virtualPositions H v x) \<inter> fst ` set (ring s) = {} \<and>
         x \<notin> set (servers s) \<and>
         (\<forall>e\<in>set (ring s). snd e \<noteq> x) \<and>
         getServer H s key \<noteq> Inr (Some x)"
proof -
  define s1 where "s1 = addServer H x (run H v reqs)"
  have s: "s = removeServer H x s1" by (simp add: assms s1_def)
  have mem: "x \<in> set (servers s1)"
    by (cases "x \<in> set (servers (run H v reqs))") (simp_all add: s1_def addServer_old addServer_new)
  have v: "virtualNodes s1 = v"
    by (simp add: s1_def virtualNodes_addServer virtualNodes_run)
  have ok: "ring_ok s" and own: "owned H s"
    by (simp_all add: s s1_def ring_ok_removeServer ring_ok_addServer ring_ok_run
        owned_removeServer owned_addServer owned_run)
  from mem have gone: "x \<notin> set (servers s)"
    by (simp add: s removeServer_old)
  from mem v have keys: "set (virtualPositions H v x) \<inter> fst ` set (ring s) = {}"
    by (auto simp: s removeServer_keys)
  have vals: "snd e \<noteq> x" if "e \<in> set (ring s)" for e
  proof -
    from that ok have "map_of (ring s) (fst e) = Some (snd e)"
      by (intro entry_map_of) simp_all
    with own have "snd e \<in> set (servers s)" by (simp add: owned_def)
    with gone show ?thesis by auto
  qed
  have "getServer H s key \<noteq> Inr (Some x)"
  proof (cases "ring s = []")
    case True
    with ok show ?thesis by (simp add: getServer_empty)
  next
    case False
    with ok own obtain y where "y \<in> set (servers s)" "getServer H s key = Inr (Some y)"
      by (blast dest: getServer_registered)
    with gone show ?thesis by auto
  qed
  with gone keys vals show ?thesis by blast
qed

theorem removal_complete_witness:
  "set (virtualPositions md5_sample 3 ''server4'') \<inter>
     fst ` set (ring (removeServer md5_sample ''server4''
                       (addServer md5_sample ''server4'' (run md5_sample 3 demo)))) = {} \<and>
   ''server4'' \<notin> set (servers (removeServer md5_sample ''server4''
                       (addServer md5_sample ''server4'' (run md5_sample 3 demo)))) \<and>
   getServer md5_sample (removeServer md5_sample ''server4''
                       (addServer md5_sample ''server4'' (run md5_sample 3 demo))) ''key_4''
     = Inr (Some ''server2'')"
proof -
  have "getServer md5_sample (run md5_sample 3 demo) ''key_4'' = Inr (Some ''server2'')"
    by (simp add: demo_state lookup_defs md5_sample_def md5_table_def)
  then show ?thesis
    using removal_complete [of _ md5_sample "''server4''" 3 demo "''key_4''", OF refl]
    by (simp add: demo_server4_removed)
qed

text \<open>
  \<^bold>\<open>C8\<close>. In any state, \<^verbatim>\<open>addServer(x)\<close> with \<open>x\<close> registered changes no field, so a second
  \<^verbatim>\<open>addServer(x)\<close> in a row changes nothing; \<^verbatim>\<open>removeServer(x)\<close> with \<open>x\<close> not registered
  changes no field, so a second \<^verbatim>\<open>removeServer(x)\<close> in a row changes nothing. Both calls
  return and never throw.
\<close>

theorem membership_idempotent:
  "(x \<in> set (servers s) \<longrightarrow> addServer H x s = s) \<and>
   addServer H x (addServer H x s) = addServer H x s \<and>
   (x \<notin> set (servers s) \<longrightarrow> removeServer H x s = s) \<and>
   removeServer H x (removeServer H x s) = removeServer H x s \<and>
   fst (call H (AddServer x) s) = Returned \<and>
   fst (call H (RemoveServer x) s) = Returned"
proof -
  have "x \<in> set (servers (addServer H x s))"
    by (cases "x \<in> set (servers s)") (simp_all add: addServer_old addServer_new)
  moreover have "x \<notin> set (servers (removeServer H x s))"
    by (cases "x \<in> set (servers s)") (simp_all add: removeServer_old removeServer_new)
  ultimately show ?thesis
    by (simp add: addServer_old removeServer_new)
qed

theorem membership_idempotent_witness:
  "''server1'' \<in> set (servers (run md5_sample 3 demo)) \<and>
   addServer md5_sample ''server1'' (run md5_sample 3 demo) = run md5_sample 3 demo \<and>
   ''server4'' \<notin> set (servers (run md5_sample 3 demo)) \<and>
   removeServer md5_sample ''server4'' (run md5_sample 3 demo) = run md5_sample 3 demo"
  using membership_idempotent [of "''server1''" "run md5_sample 3 demo" md5_sample]
    membership_idempotent [of "''server4''" "run md5_sample 3 demo" md5_sample]
  by (simp add: demo_state)

subsection \<open>Reassignment of keys\<close>

lemma removeServer_sortedPositions:
  assumes "ring_ok s" "x \<in> set (servers s)"
  shows "sortedPositions (removeServer H x s) =
         filter (\<lambda>q. q \<notin> set (virtualPositions H (virtualNodes s) x)) (sortedPositions s)"
proof -
  let ?P = "set (virtualPositions H (virtualNodes s) x)"
  have "map fst (filter (\<lambda>e. fst e \<notin> ?P) (ring s)) = filter (\<lambda>q. q \<notin> ?P) (map fst (ring s))"
    by (simp add: filter_map comp_def)
  with assms show ?thesis
    by (simp add: removeServer_old ring_ok_def filter_sort)
qed

lemma removeServer_getServer:
  assumes ok: "ring_ok s" and mem: "x \<in> set (servers s)"
    and surv: "surviving = filter (\<lambda>q. q \<notin> set (virtualPositions H (virtualNodes s) x)) (sortedPositions s)"
  shows "getServer H (removeServer H x s) key =
           (if surviving = [] then Inl NoServersAvailable
            else Inr (map_of (ring s) (clockwise_successor surviving (H key))))"
proof -
  let ?s' = "removeServer H x s"
  let ?P = "set (virtualPositions H (virtualNodes s) x)"
  from ok have ok': "ring_ok ?s'" by (rule ring_ok_removeServer)
  from ok mem surv have sp: "sortedPositions ?s' = surviving"
    by (simp add: removeServer_sortedPositions)
  from ok' have len: "length (sortedPositions ?s') = length (ring ?s')"
    by (simp add: ring_ok_def)
  show ?thesis
  proof (cases "surviving = []")
    case True
    with sp len have "ring ?s' = []" by simp
    with ok' True show ?thesis by (simp add: getServer_empty)
  next
    case False
    with sp len have ne: "ring ?s' \<noteq> []" by auto
    let ?c = "clockwise_successor surviving (H key)"
    from ok' ne have "?c \<in> set surviving"
      using getServer_successor(2) [of ?s' H key] by (simp add: sp)
    then have "?c \<notin> ?P" by (simp add: surv)
    with mem have "map_of (ring ?s') ?c = map_of (ring s) ?c"
      by (simp add: removeServer_old map_of_filter_keys)
    with ok' ne False show ?thesis
      using getServer_successor(1) [of ?s' H key] by (simp add: sp)
  qed
qed

text \<open>
  \<^bold>\<open>C3\<close>. Let \<open>s\<close> be a reachable state in which server \<open>x\<close> is registered. A key whose
  clockwise successor is not one of the virtual-node positions of \<open>x\<close> (or that had no
  successor at all) gets the same answer from \<^verbatim>\<open>getServer\<close> after \<^verbatim>\<open>removeServer(x)\<close>
  as before. After the removal the array of positions holds exactly the surviving
  positions, and every key is mapped to the server that owned, before the removal, the
  clockwise successor of its hash among the surviving positions; that server is still
  registered. When no position survives the lookup throws.
\<close>

theorem removeServer_reassignment:
  assumes "s = run H v reqs" and "x \<in> set (servers s)" and "s' = removeServer H x s"
    and "surviving = filter (\<lambda>q. q \<notin> set (virtualPositions H v x)) (sortedPositions s)"
  shows "((ring s \<noteq> [] \<longrightarrow>
            clockwise_successor (sortedPositions s) (H key) \<notin> set (virtualPositions H v x)) \<longrightarrow>
          getServer H s' key = getServer H s key) \<and>
         sortedPositions s' = surviving \<and>
         getServer H s' key =
           (if surviving = [] then Inl NoServersAvailable
            else Inr (map_of (ring s) (clockwise_successor surviving (H key)))) \<and>
         (surviving \<noteq> [] \<longrightarrow>
            (\<exists>y\<in>set (servers s'). map_of (ring s) (clockwise_successor surviving (H key)) = Some y))"
proof -
  from assms(1) have ok: "ring_ok s" and v: "virtualNodes s = v"
    by (simp_all add: ring_ok_run virtualNodes_run)
  from assms(1,3) have ok': "ring_ok s'" and own': "owned H s'"
    by (simp_all add: ring_ok_run ring_ok_removeServer owned_run owned_removeServer)
  from ok assms(2,4) v have sp: "sortedPositions s' = surviving"
    by (simp add: assms(3) removeServer_sortedPositions)
  from ok assms(2,4) v
  have after: "getServer H s' key =
           (if surviving = [] then Inl NoServersAvailable
            else Inr (map_of (ring s) (clockwise_successor surviving (H key))))"
    unfolding assms(3) by (intro removeServer_getServer) simp_all
  have sub: "set surviving \<subseteq> set (sortedPositions s)"
    by (auto simp: assms(4))
  have same: "getServer H s' key = getServer H s key"
    if "ring s \<noteq> [] \<longrightarrow>
        clockwise_successor (sortedPositions s) (H key) \<notin> set (virtualPositions H v x)"
  proof (cases "ring s = []")
    case True
    with ok have "sortedPositions s = []" by (simp add: ring_ok_def)
    then have "surviving = []" by (simp add: assms(4))
    with after ok True show ?thesis by (simp add: getServer_empty)
  next
    case False
    let ?c = "clockwise_successor (sortedPositions s) (H key)"
    from ok False have "?c \<in> set (sortedPositions s)"
      by (rule getServer_successor(2))
    with that False have "?c \<in> set surviving" by (simp add: assms(4))
    with sub have "clockwise_successor surviving (H key) = ?c"
      by (rule clockwise_successor_subset)
    moreover from \<open>?c \<in> set surviving\<close> have "surviving \<noteq> []" by auto
    ultimately show ?thesis
      using after ok False getServer_successor(1) [of s H key] by simp
  qed
  have owner: "\<exists>y\<in>set (servers s'). map_of (ring s) (clockwise_successor surviving (H key)) = Some y"
    if "surviving \<noteq> []"
  proof -
    from ok' have "length (sortedPositions s') = length (ring s')"
      by (simp add: ring_ok_def)
    with that sp have "ring s' \<noteq> []" by auto
    with ok' own' obtain y where y: "y \<in> set (servers s')" "getServer H s' key = Inr (Some y)"
      by (blast dest: getServer_registered)
    with after that have "map_of (ring s) (clockwise_successor surviving (H key)) = Some y"
      by simp
    with y(1) show ?thesis by blast
  qed
  from same sp after owner show ?thesis by blast
qed

theorem removeServer_reassignment_witness:
  "''server2'' \<in> set (servers (run md5_sample 3 demo)) \<and>
   getServer md5_sample (removeServer md5_sample ''server2'' (run md5_sample 3 demo)) ''event_9999'' =
     getServer md5_sample (run md5_sample 3 demo) ''event_9999'' \<and>
   getServer md5_sample (run md5_sample 3 demo) ''event_1234'' = Inr (Some ''server2'') \<and>
   getServer md5_sample (removeServer md5_sample ''server2'' (run md5_sample 3 demo)) ''event_1234'' =
     Inr (Some ''server1'')"
proof -
  have mem: "''server2'' \<in> set (servers (run md5_sample 3 demo))"
    by (simp add: demo_state)
  have before: "getServer md5_sample (run md5_sample 3 demo) ''event_1234'' = Inr (Some ''server2'')"
    by (simp add: demo_state lookup_defs md5_sample_def md5_table_def)
  have "clockwise_successor (sortedPositions (run md5_sample 3 demo)) (md5_sample ''event_9999'')
          \<notin> set (virtualPositions md5_sample 3 ''server2'')"
    by (simp add: demo_state clockwise_successor_code positions_defs)
  with removeServer_reassignment [where H = md5_sample and v = 3 and reqs = demo
      and x = "''server2''" and key = "''event_9999''", OF refl mem refl refl]
  have same: "getServer md5_sample (removeServer md5_sample ''server2'' (run md5_sample 3 demo)) ''event_9999'' =
     getServer md5_sample (run md5_sample 3 demo) ''event_9999''"
    by simp
  from removeServer_reassignment [where H = md5_sample and v = 3 and reqs = demo
      and x = "''server2''" and key = "''event_1234''", OF refl mem refl refl]
  have "getServer md5_sample (removeServer md5_sample ''server2'' (run md5_sample 3 demo)) ''event_1234'' =
     Inr (Some ''server1'')"
    by (simp add: demo_state clockwise_successor_code positions_defs)
  with mem same before show ?thesis by simp
qed

lemma addServer_getServer:
  assumes ok: "ring_ok s" and new: "x \<notin> set (servers s)"
  shows "getServer H (addServer H x s) key =
           (if ring (addServer H x s) \<noteq> [] \<and>
               clockwise_successor (sortedPositions (addServer H x s)) (H key)
                 \<in> set (virtualPositions H (virtualNodes s) x)
            then Inr (Some x) else getServer H s key)"
proof -
  let ?s' = "addServer H x s"
  let ?P = "set (virtualPositions H (virtualNodes s) x)"
  let ?c = "clockwise_successor (sortedPositions ?s') (H key)"
  from ok have ok': "ring_ok ?s'" by (rule ring_ok_addServer)
  from new have keys: "fst ` set (ring ?s') = ?P \<union> fst ` set (ring s)"
    by (simp add: addServer_new keys_fold_update)
  from new have look: "map_of (ring ?s') q = (if q \<in> ?P then Some x else map_of (ring s) q)" for q
    by (simp add: addServer_new map_of_fold_update)
  show ?thesis
  proof (cases "ring ?s' = []")
    case True
    with keys have "ring s = []" by auto
    with True ok ok' show ?thesis by (simp add: getServer_empty)
  next
    case ne: False
    from ok' ne have c: "?c \<in> set (sortedPositions ?s')"
      and res: "getServer H ?s' key = Inr (map_of (ring ?s') ?c)"
      using getServer_successor [of ?s' H key] by simp_all
    show ?thesis
    proof (cases "?c \<in> ?P")
      case True
      with ne res look show ?thesis by simp
    next
      case False
      with c keys ok ok' have old: "?c \<in> set (sortedPositions s)"
        by (auto simp: keys_sortedPositions)
      then have ne0: "ring s \<noteq> []"
        using ok by (auto simp: keys_sortedPositions)
      from keys ok ok' have "set (sortedPositions s) \<subseteq> set (sortedPositions ?s')"
        by (auto simp: keys_sortedPositions)
      then have "clockwise_successor (sortedPositions s) (H key) = ?c"
        using old by (rule clockwise_successor_subset)
      with ok ne0 have "getServer H s key = Inr (map_of (ring s) ?c)"
        using getServer_successor(1) [of s H key] by simp
      with False res look show ?thesis by simp
    qed
  qed
qed

text \<open>
  \<^bold>\<open>C4\<close>. Let \<open>s\<close> be a reachable state in which server \<open>x\<close> is not registered. If the
  answer of \<^verbatim>\<open>getServer\<close> for a key changes with \<^verbatim>\<open>addServer(x)\<close>, the new answer is
  \<open>x\<close>. The hash of a key falls in an arc claimed by a virtual node of \<open>x\<close> when its
  clockwise successor on the new ring is a virtual-node position of \<open>x\<close>: such a key is
  mapped to \<open>x\<close>, and every other key keeps the answer it had.
\<close>

theorem addServer_minimal_disruption:
  assumes "s = run H v reqs" and "x \<notin> set (servers s)" and "s' = addServer H x s"
  shows "(getServer H s' key \<noteq> getServer H s key \<longrightarrow> getServer H s' key = Inr (Some x)) \<and>
         (ring s' \<noteq> [] \<and>
          clockwise_successor (sortedPositions s') (H key) \<in> set (virtualPositions H v x) \<longrightarrow>
            getServer H s' key = Inr (Some x)) \<and>
         (\<not> (ring s' \<noteq> [] \<and>
             clockwise_successor (sortedPositions s') (H key) \<in> set (virtualPositions H v x)) \<longrightarrow>
            getServer H s' key = getServer H s key)"
proof -
  from assms(1) have "ring_ok s" and "virtualNodes s = v"
    by (simp_all add: ring_ok_run virtualNodes_run)
  with assms(2) have "getServer H s' key =
           (if ring s' \<noteq> [] \<and>
               clockwise_successor (sortedPositions s') (H key) \<in> set (virtualPositions H v x)
            then Inr (Some x) else getServer H s key)"
    unfolding assms(3) using addServer_getServer [of s x H key] by simp
  then show ?thesis
    by (simp split: if_splits)
qed

theorem addServer_minimal_disruption_witness:
  "''server4'' \<notin> set (servers (run md5_sample 3 demo)) \<and>
   getServer md5_sample (run md5_sample 3 demo) ''key_4'' = Inr (Some ''server2'') \<and>
   getServer md5_sample (addServer md5_sample ''server4'' (run md5_sample 3 demo)) ''key_4'' =
     Inr (Some ''server4'') \<and>
   getServer md5_sample (addServer md5_sample ''server4'' (run md5_sample 3 demo)) ''event_9999'' =
     getServer md5_sample (run md5_sample 3 demo) ''event_9999''"
proof -
  have new: "''server4'' \<notin> set (servers (run md5_sample 3 demo))"
    by (simp add: demo_state)
  have before: "getServer md5_sample (run md5_sample 3 demo) ''key_4'' = Inr (Some ''server2'')"
    by (simp add: demo_state lookup_defs md5_sample_def md5_table_def)
  from addServer_minimal_disruption [where H = md5_sample and v = 3 and reqs = demo
      and x = "''server4''" and key = "''key_4''", OF refl new refl]
  have moved: "getServer md5_sample (addServer md5_sample ''server4'' (run md5_sample 3 demo)) ''key_4'' =
     Inr (Some ''server4'')"
    by (simp add: demo_server4 clockwise_successor_code positions_defs)
  from addServer_minimal_disruption [where H = md5_sample and v = 3 and reqs = demo
      and x = "''server4''" and key = "''event_9999''", OF refl new refl]
  have "getServer md5_sample (addServer md5_sample ''server4'' (run md5_sample 3 demo)) ''event_9999'' =
     getServer md5_sample (run md5_sample 3 demo) ''event_9999''"
    by (simp add: demo_server4 clockwise_successor_code positions_defs)
  with new before moved show ?thesis by simp
qed

text \<open>
  \<^bold>\<open>C7\<close>. Let \<open>s\<close> be a reachable state with no server and \<open>v\<close> a non-negative number of
  virtual nodes. After \<^verbatim>\<open>addServer(x)\<close> every entry of the ring maps to \<open>x\<close>, the keys of
  the ring are the virtual-node positions of \<open>x\<close>, and the ring has at most \<open>v\<close> entries:
  exactly \<open>v\<close> when the \<open>v\<close> positions are pairwise different, and fewer only when two of
  them coincide.
\<close>

theorem addServer_on_empty_ring:
  assumes "s = run H v reqs" and "servers s = []" and "0 \<le> v" and "s' = addServer H x s"
  shows "(\<forall>e\<in>set (ring s'). snd e = x) \<and>
         fst ` set (ring s') = set (virtualPositions H v x) \<and>
         int (length (ring s')) \<le> v \<and>
         (int (length (ring s')) = v \<longleftrightarrow> distinct (virtualPositions H v x))"
proof -
  let ?ps = "virtualPositions H v x"
  from assms(1) have ok: "ring_ok s" and own: "owned H s" and v: "virtualNodes s = v"
    by (simp_all add: ring_ok_run owned_run virtualNodes_run)
  with assms(2) have empty: "ring s = []" by (simp add: servers_empty_ring)
  from assms(2) have new: "x \<notin> set (servers s)" by simp
  from ok have ok': "ring_ok s'" unfolding assms(4) by (rule ring_ok_addServer)
  from new v empty have keys: "fst ` set (ring s') = set ?ps"
    by (simp add: assms(4) addServer_new keys_fold_update)
  from new v empty have look: "map_of (ring s') q = (if q \<in> set ?ps then Some x else None)" for q
    by (simp add: assms(4) addServer_new map_of_fold_update)
  have vals: "snd e = x" if "e \<in> set (ring s')" for e
  proof -
    from that ok' have "map_of (ring s') (fst e) = Some (snd e)"
      by (intro entry_map_of) simp_all
    with look show ?thesis by (simp split: if_splits)
  qed
  from ok' have "length (ring s') = card (fst ` set (ring s'))"
    using distinct_card [of "map fst (ring s')"] by (simp add: ring_ok_def)
  with keys have len: "length (ring s') = card (set ?ps)" by simp
  have lps: "length ?ps = nat v" by (simp add: virtualPositions_def)
  have "card (set ?ps) \<le> length ?ps" by (rule card_length)
  with len lps assms(3) have le: "int (length (ring s')) \<le> v" by simp
  have "card (set ?ps) = length ?ps \<longleftrightarrow> distinct ?ps"
    by (auto simp: distinct_card card_distinct)
  with len lps assms(3) have "int (length (ring s')) = v \<longleftrightarrow> distinct ?ps"
    by auto
  with vals keys le show ?thesis by blast
qed

theorem addServer_on_empty_ring_witness:
  "servers (run md5_sample 3 []) = [] \<and> (0::int) \<le> 3 \<and>
   distinct (virtualPositions md5_sample 3 ''server1'') \<and>
   int (length (ring (addServer md5_sample ''server1'' (run md5_sample 3 [])))) = 3 \<and>
   snd ` set (ring (addServer md5_sample ''server1'' (run md5_sample 3 []))) = {''server1''}"
proof -
  have empty: "servers (run md5_sample 3 []) = []"
    by (simp add: run_Nil constructor_def)
  have dist: "distinct (virtualPositions md5_sample 3 ''server1'')"
    by (simp add: positions_defs)
  from addServer_on_empty_ring [where H = md5_sample and v = 3 and reqs = "[]"
      and x = "''server1''", OF refl empty _ refl] dist
  have "int (length (ring (addServer md5_sample ''server1'' (run md5_sample 3 [])))) = 3"
    by simp
  with empty dist show ?thesis
    by (simp add: single_server_state)
qed

subsection \<open>Lookup with a registered server\<close>

text \<open>When the positions of different servers never coincide, every virtual-node
  position of a registered server holds that server.\<close>

lemma added_append: "added (reqs @ rest) = added reqs @ added rest"
  by (induction reqs rule: added.induct) simp_all

lemma servers_call: "set (servers (snd (call H r s))) \<subseteq> set (servers s) \<union> set (added [r])"
proof (cases r)
  case (AddServer x)
  then show ?thesis
    by (cases "x \<in> set (servers s)") (auto simp: addServer_old addServer_new)
next
  case (RemoveServer x)
  then show ?thesis
    by (cases "x \<in> set (servers s)") (auto simp: removeServer_old removeServer_new)
qed simp_all

lemma servers_added: "set (servers (run H v reqs)) \<subseteq> set (added reqs)"
proof (induction reqs rule: rev_induct)
  case Nil
  show ?case by (simp add: run_Nil constructor_def)
next
  case (snoc r reqs)
  with servers_call [of H r "run H v reqs"] show ?case
    by (auto simp: run_snoc added_append)
qed

lemma populated_constructor: "populated H (constructor v)"
  by (simp add: populated_def constructor_def)

lemma populated_addServer:
  assumes "populated H s"
    and "\<forall>y\<in>set (servers s). y \<noteq> x \<longrightarrow>
           set (virtualPositions H (virtualNodes s) x) \<inter> set (virtualPositions H (virtualNodes s) y) = {}"
  shows "populated H (addServer H x s)"
proof (cases "x \<in> set (servers s)")
  case True
  with assms(1) show ?thesis by (simp add: addServer_old)
next
  case False
  with assms show ?thesis
    by (auto simp: addServer_new populated_def map_of_fold_update)
qed

lemma populated_removeServer:
  assumes "populated H s"
    and "\<forall>y\<in>set (servers s). y \<noteq> x \<longrightarrow>
           set (virtualPositions H (virtualNodes s) x) \<inter> set (virtualPositions H (virtualNodes s) y) = {}"
  shows "populated H (removeServer H x s)"
proof (cases "x \<in> set (servers s)")
  case False
  with assms(1) show ?thesis by (simp add: removeServer_new)
next
  case True
  with assms show ?thesis
    by (auto simp: removeServer_old populated_def map_of_filter_keys)
qed

lemma collision_free_append: "collision_free H v (xs @ ys) \<Longrightarrow> collision_free H v xs"
  by (simp add: collision_free_def)

lemma populated_run: "collision_free H v (added reqs) \<Longrightarrow> populated H (run H v reqs)"
proof (induction reqs rule: rev_induct)
  case Nil
  show ?case by (simp add: run_Nil populated_constructor)
next
  case (snoc r reqs)
  let ?s = "run H v reqs"
  from snoc.prems have "collision_free H v (added reqs)"
    by (simp add: added_append collision_free_append)
  with snoc.IH have pop: "populated H ?s" by simp
  have apart: "set (virtualPositions H (virtualNodes ?s) x) \<inter>
                 set (virtualPositions H (virtualNodes ?s) y) = {}"
    if "r = AddServer x \<or> x \<in> set (servers ?s)" "y \<in> set (servers ?s)" "y \<noteq> x" for x y
  proof -
    from that(2) have "y \<in> set (added (reqs @ [r]))"
      using servers_added [of H v reqs] by (auto simp: added_append)
    moreover from that(1) have "x \<in> set (added (reqs @ [r]))"
      using servers_added [of H v reqs] by (auto simp: added_append)
    ultimately show ?thesis
      using snoc.prems that(3) by (simp add: collision_free_def virtualNodes_run)
  qed
  show ?case
  proof (cases r)
    case (AddServer x)
    with pop apart show ?thesis
      by (simp add: run_snoc populated_addServer)
  next
    case (RemoveServer x)
    show ?thesis
    proof (cases "x \<in> set (servers ?s)")
      case True
      with pop apart RemoveServer show ?thesis
        by (simp add: run_snoc populated_removeServer)
    next
      case False
      with pop RemoveServer show ?thesis
        by (simp add: run_snoc removeServer_new)
    qed
  next
    case (GetServer k)
    with pop show ?thesis by (simp add: run_snoc)
  next
    case GetDistribution
    with pop show ?thesis by (simp add: run_snoc)
  qed
qed

text \<open>
  \<^bold>\<open>C2\<close>, as stated, fails: with one virtual node per server, \<^verbatim>\<open>server30783\<close> and
  \<^verbatim>\<open>server54582\<close> share their only position. After both are added and the second is
  removed, the first is still registered, the ring is empty and \<^verbatim>\<open>getServer\<close> throws.
\<close>

theorem getServer_total_counterexample:
  "(0::int) < 1 \<and>
   servers (run md5_sample 1 colliding) = [''server30783''] \<and>
   getServer md5_sample (run md5_sample 1 colliding) ''event_1234'' = Inl NoServersAvailable"
  by (simp add: colliding_state getServer_def)

text \<open>
  \<^bold>\<open>C2\<close>, amended. Let the number of virtual nodes be positive, and let no virtual-node
  position of a server that was added be a virtual-node position of another server that
  was added. Then in every reachable state \<^verbatim>\<open>getServer\<close> throws
  \<^verbatim>\<open>NoServersAvailable\<close> exactly when no server is registered, and with a server
  registered it returns a registered server for every key.
\<close>

theorem getServer_total_without_collisions:
  assumes "0 < v" and "s = run H v reqs" and "collision_free H v (added reqs)"
  shows "(getServer H s key = Inl NoServersAvailable \<longleftrightarrow> servers s = []) \<and>
         (servers s \<noteq> [] \<longrightarrow> (\<exists>x\<in>set (servers s). getServer H s key = Inr (Some x)))"
proof -
  from assms(2) have ok: "ring_ok s" and own: "owned H s" and v: "virtualNodes s = v"
    by (simp_all add: ring_ok_run owned_run virtualNodes_run)
  from assms(2,3) have pop: "populated H s" by (simp add: populated_run)
  have registered: "\<exists>x\<in>set (servers s). getServer H s key = Inr (Some x)" if "servers s \<noteq> []"
  proof -
    from that obtain x where x: "x \<in> set (servers s)" by (cases "servers s") auto
    from assms(1) have "virtualPositions H v x \<noteq> []"
      by (simp add: virtualPositions_def)
    then obtain p where "p \<in> set (virtualPositions H v x)"
      by (cases "virtualPositions H v x") auto
    with pop x v have "map_of (ring s) p = Some x" by (simp add: populated_def)
    then have "ring s \<noteq> []" by auto
    with ok own show ?thesis by (rule getServer_registered)
  qed
  show ?thesis
  proof (cases "servers s = []")
    case True
    with ok own have "ring s = []" by (rule servers_empty_ring)
    with ok have "getServer H s key = Inl NoServersAvailable"
      by (simp add: getServer_empty)
    with True show ?thesis by simp
  next
    case False
    then obtain x where "x \<in> set (servers s)" "getServer H s key = Inr (Some x)"
      using registered by blast
    with False show ?thesis by auto
  qed
qed

theorem getServer_total_without_collisions_witness:
  "(0::int) < 3 \<and> collision_free md5_sample 3 (added demo) \<and>
   servers (run md5_sample 3 demo) \<noteq> [] \<and>
   getServer md5_sample (run md5_sample 3 demo) ''event_4567'' \<noteq> Inl NoServersAvailable \<and>
   getServer md5_sample (run md5_sample 3 demo) ''event_4567'' = Inr (Some ''server2'')"
proof -
  have pos: "(0::int) < 3" by simp
  have free: "collision_free md5_sample 3 (added demo)"
    by (simp add: collision_free_def demo_def demo_positions)
  have ne: "servers (run md5_sample 3 demo) \<noteq> []"
    by (simp add: demo_state)
  have val: "getServer md5_sample (run md5_sample 3 demo) ''event_4567'' = Inr (Some ''server2'')"
    by (simp add: demo_state lookup_defs md5_values)
  from getServer_total_without_collisions [where H = md5_sample and v = 3 and reqs = demo
      and key = "''event_4567''", OF pos refl free] ne
  have "getServer md5_sample (run md5_sample 3 demo) ''event_4567'' \<noteq> Inl NoServersAvailable"
    by blast
  with pos free ne val show ?thesis by blast
qed

subsection \<open>The distribution of the sample keys\<close>

lemma fold_zero:
  "fold (\<lambda>server d. object_set d server (Num 0)) xs d0 =
   (\<lambda>x. if x \<in> set xs \<and> x \<noteq> ''__proto__'' then Some (Num 0) else d0 x)"
  by (induction xs arbitrary: d0) (auto simp: object_set_def fun_eq_iff)

lemma zero_counts_eq:
  "zero_counts xs = (\<lambda>x. if x \<in> set xs \<and> x \<noteq> ''__proto__'' then Some (Num 0) else None)"
  by (simp add: zero_counts_def fold_zero)

lemma increment_registered:
  "y \<in> A \<Longrightarrow>
   increment (\<lambda>x. if x \<in> A \<and> x \<noteq> ''__proto__'' then Some (Num (c x)) else None) (Some y) =
   (\<lambda>x. if x \<in> A \<and> x \<noteq> ''__proto__'' then Some (Num ((c(y := c y + 1)) x)) else None)"
  by (auto simp: increment_def object_set_def property_key_def fun_eq_iff)

lemma distribution_loop_counts:
  assumes "\<forall>j<n. \<exists>y\<in>A. getServer H s (sampleKey j) = Inr (Some y)"
  shows "distribution_loop H s n i (\<lambda>x. if x \<in> A \<and> x \<noteq> ''__proto__'' then Some (Num (c x)) else None) =
         Inr (\<lambda>x. if x \<in> A \<and> x \<noteq> ''__proto__''
                   then Some (Num (c x + length (filter (\<lambda>j. getServer H s (sampleKey j) = Inr (Some x)) [i..<n])))
                   else None)"
proof (induction "n - i" arbitrary: i c)
  case 0
  then have stop: "\<not> i < n" and nil: "[i..<n] = []" by simp_all
  show ?case
    using stop nil by (simp add: distribution_loop.simps [of _ _ n i] cong: if_cong)
next
  case (Suc k)
  then have less: "i < n" and k: "k = n - Suc i" by simp_all
  with assms obtain y where y: "y \<in> A" "getServer H s (sampleKey i) = Inr (Some y)"
    by blast
  have upt: "[i..<n] = i # [Suc i..<n]"
    using less by (simp add: upt_conv_Cons)
  have "distribution_loop H s n i (\<lambda>x. if x \<in> A \<and> x \<noteq> ''__proto__'' then Some (Num (c x)) else None) =
        distribution_loop H s n (Suc i)
          (\<lambda>x. if x \<in> A \<and> x \<noteq> ''__proto__'' then Some (Num ((c(y := c y + 1)) x)) else None)"
    by (subst distribution_loop.simps) (simp add: less y increment_registered)
  also have "\<dots> = Inr (\<lambda>x. if x \<in> A \<and> x \<noteq> ''__proto__''
                   then Some (Num ((c(y := c y + 1)) x +
                     length (filter (\<lambda>j. getServer H s (sampleKey j) = Inr (Some x)) [Suc i..<n])))
                   else None)"
    using k by (rule Suc.hyps(1))
  also have "\<dots> = Inr (\<lambda>x. if x \<in> A \<and> x \<noteq> ''__proto__''
                   then Some (Num (c x + length (filter (\<lambda>j. getServer H s (sampleKey j) = Inr (Some x)) [i..<n])))
                   else None)"
    using y by (auto simp: upt fun_eq_iff)
  finally show ?case .
qed

lemma distribution_loop_empty:
  assumes "ring_ok s" "ring s = []" "0 < n"
  shows "distribution_loop H s n 0 d = Inl NoServersAvailable"
  by (subst distribution_loop.simps) (simp add: assms getServer_empty)

text \<open>What \<^verbatim>\<open>getDistribution\<close> returns in a reachable state: it throws when the ring is
  empty, as its first call of \<^verbatim>\<open>getServer\<close> does. Otherwise the object it returns has, for
  every registered server other than \<^verbatim>\<open>__proto__\<close>, the number of sample keys \<^verbatim>\<open>key_0\<close>,
  ..., \<^verbatim>\<open>key_9999\<close> that \<^verbatim>\<open>getServer\<close> maps to that server, and no other property.\<close>

lemma getDistribution_reachable:
  assumes "s = run H v reqs"
  shows "getDistribution H s =
           (if ring s = [] then Inl NoServersAvailable
            else Inr (\<lambda>x. if x \<in> set (servers s) \<and> x \<noteq> ''__proto__''
                           then Some (Num (length (filter (\<lambda>i. getServer H s (sampleKey i) = Inr (Some x))
                                                    [0..<10000])))
                           else None))"
proof -
  from assms have ok: "ring_ok s" and own: "owned H s"
    by (simp_all add: ring_ok_run owned_run)
  show ?thesis
  proof (cases "ring s = []")
    case True
    with ok show ?thesis
      by (simp add: getDistribution_def distribution_loop_empty)
  next
    case False
    with ok own have "\<forall>j<10000. \<exists>y\<in>set (servers s). getServer H s (sampleKey j) = Inr (Some y)"
      by (simp add: getServer_registered)
    from distribution_loop_counts [OF this, where c = "\<lambda>x. 0" and i = 0] False show ?thesis
      by (simp add: getDistribution_def zero_counts_eq cong: if_cong)
  qed
qed

lemma proto_state:
  "run H 1 [AddServer ''__proto__''] =
     \<lparr>virtualNodes = 1, ring = [(H ''__proto__:0'', ''__proto__'')], servers = [''__proto__''],
      sortedPositions = [H ''__proto__:0'']\<rparr>"
  by (simp add: run_def constructor_def addServer_def servers_has_def servers_add_def
      updateSortedPositions_def add_loop.simps ring_set_def virtualKey_def decimal.simps ring_keys_def)

text \<open>
  \<^bold>\<open>C9\<close> fails on the code. Take one virtual node per server and register the server
  \<^verbatim>\<open>__proto__\<close>, for any hash function. The server is registered and \<^verbatim>\<open>getServer\<close> maps
  every key to it, yet no zero count is initialised for it, and the object that
  \<^verbatim>\<open>getDistribution\<close> returns after its 10000 increments has no property at all: the
  assignments to \<^verbatim>\<open>distribution["__proto__"]\<close> store nothing. The call leaves the state of
  the ring as it was.
\<close>

theorem getDistribution_drops_proto:
  "servers (run H 1 [AddServer ''__proto__'']) = [''__proto__''] \<and>
   getServer H (run H 1 [AddServer ''__proto__'']) key = Inr (Some ''__proto__'') \<and>
   zero_counts (servers (run H 1 [AddServer ''__proto__''])) = Map.empty \<and>
   getDistribution H (run H 1 [AddServer ''__proto__'']) = Inr Map.empty \<and>
   snd (call H GetDistribution (run H 1 [AddServer ''__proto__''])) = run H 1 [AddServer ''__proto__'']"
proof -
  let ?s = "run H 1 [AddServer ''__proto__'']"
  have srv: "servers ?s = [''__proto__'']" and ne: "ring ?s \<noteq> []"
    by (simp_all add: proto_state)
  have ok: "ring_ok ?s" and own: "owned H ?s"
    by (simp_all add: ring_ok_run owned_run)
  from ok own ne have "\<exists>x\<in>set (servers ?s). getServer H ?s key = Inr (Some x)"
    by (rule getServer_registered)
  with srv have look: "getServer H ?s key = Inr (Some ''__proto__'')"
    by simp
  from srv have zero: "zero_counts (servers ?s) = Map.empty"
    by (simp add: zero_counts_eq)
  have "getDistribution H ?s =
          Inr (\<lambda>x. if x \<in> set (servers ?s) \<and> x \<noteq> ''__proto__''
                    then Some (Num (length (filter (\<lambda>i. getServer H ?s (sampleKey i) = Inr (Some x))
                                             [0..<10000])))
                    else None)"
    using getDistribution_reachable [OF refl, of H 1 "[AddServer ''__proto__'']"] ne
    by (simp only: if_False)
  also have "(\<lambda>x. if x \<in> set (servers ?s) \<and> x \<noteq> ''__proto__''
                    then Some (Num (length (filter (\<lambda>i. getServer H ?s (sampleKey i) = Inr (Some x))
                                             [0..<10000])))
                    else None) = Map.empty"
    by (rule ext) (simp add: srv)
  finally have dist: "getDistribution H ?s = Inr Map.empty" .
  from srv look zero dist show ?thesis
    by simp
qed

theorem getDistribution_drops_proto_witness:
  "servers (run md5_sample 1 [AddServer ''__proto__'']) = [''__proto__''] \<and>
   getServer md5_sample (run md5_sample 1 [AddServer ''__proto__'']) ''key_0'' = Inr (Some ''__proto__'') \<and>
   zero_counts (servers (run md5_sample 1 [AddServer ''__proto__''])) = Map.empty \<and>
   getDistribution md5_sample (run md5_sample 1 [AddServer ''__proto__'']) = Inr Map.empty \<and>
   snd (call md5_sample GetDistribution (run md5_sample 1 [AddServer ''__proto__''])) =
     run md5_sample 1 [AddServer ''__proto__'']"
  by (rule getDistribution_drops_proto)

end
